theory Spec2Isabelle
  imports Complex_Main "HOL-Library.Multiset"
begin

section \<open>The sustainable energy dashboard: loader, scorer and selector\<close>

text \<open>
  The script \<^verbatim>\<open>sustainable_energy_app.py\<close> reads a table, coerces three columns to
  numbers, keeps the rows of the latest year, adds two score columns and filters and
  sorts the scored rows. A data frame is modelled as the list of its rows in file order;
  a column is the list of one field over the rows.

  Numbers are the program's binary64 values read as real numbers: rounding is not
  modelled, and a missing value (NaN) is \<open>None\<close>. The columns the script does not
  coerce are taken to have been read as numeric columns.
\<close>

subsection \<open>Data\<close>

text \<open>A cell of a column as \<^verbatim>\<open>read_csv\<close> leaves it: missing, a number, or text.\<close>

datatype cell = NaN | Num real | Str string

text \<open>
  One row of the table. The parameter is the type of the three columns of
  \<^verbatim>\<open>numeric_cols\<close>: \<open>cell\<close> as read, \<open>real option\<close> once coerced.
\<close>

record 'c csv_row =
  Entity :: string
  Year :: "int option"
  renewable_share :: 'c
  access_to_electricity :: "real option"
  gdp_per_capita :: 'c
  value_co2_emissions :: 'c
  renewable_capacity_per_capita :: "real option"
  energy_intensity :: "real option"

record 'c sust_row = "'c csv_row" +
  Sustainability_Score :: real

record 'c inv_row = "'c sust_row" +
  Investment_Score :: "real option"

text \<open>The exceptions the modelled library calls can raise.\<close>

datatype exn = ValueError | KeyError | IndexError

subsection \<open>Loader\<close>

text \<open>
  \<^verbatim>\<open>pd.to_numeric(col, errors=...)\<close>: a number stays, a missing value stays missing, text
  is parsed; text that does not parse raises under \<^verbatim>\<open>errors='raise'\<close> and becomes
  missing under \<^verbatim>\<open>errors='coerce'\<close>. The recogniser of numeric text is the library's
  and is a parameter.
\<close>

datatype errors = Raise | Coerce

fun to_numeric_cell :: "(string \<Rightarrow> real option) \<Rightarrow> errors \<Rightarrow> cell \<Rightarrow> exn + real option" where
  "to_numeric_cell parse e NaN = Inr None"
| "to_numeric_cell parse e (Num x) = Inr (Some x)"
| "to_numeric_cell parse e (Str s) =
     (case parse s of
        Some x \<Rightarrow> Inr (Some x)
      | None \<Rightarrow> (case e of Raise \<Rightarrow> Inl ValueError | Coerce \<Rightarrow> Inr None))"

fun to_numeric :: "(string \<Rightarrow> real option) \<Rightarrow> errors \<Rightarrow> cell list \<Rightarrow> exn + real option list" where
  "to_numeric parse e [] = Inr []"
| "to_numeric parse e (c # cs) =
     (case to_numeric_cell parse e c of
        Inl x \<Rightarrow> Inl x
      | Inr v \<Rightarrow> (case to_numeric parse e cs of Inl x \<Rightarrow> Inl x | Inr vs \<Rightarrow> Inr (v # vs)))"

text \<open>Storing the three converted columns back into the frame, row by row.\<close>

fun set_numeric_cols ::
  "cell csv_row list \<Rightarrow> real option list \<Rightarrow> real option list \<Rightarrow> real option list \<Rightarrow>
   real option csv_row list" where
  "set_numeric_cols (r # rs) (a # as) (b # bs) (c # cs) =
     \<lparr>Entity = Entity r, Year = Year r, renewable_share = a,
      access_to_electricity = access_to_electricity r, gdp_per_capita = b,
      value_co2_emissions = c,
      renewable_capacity_per_capita = renewable_capacity_per_capita r,
      energy_intensity = energy_intensity r\<rparr> # set_numeric_cols rs as bs cs"
| "set_numeric_cols _ _ _ _ = []"

text \<open>The loop over \<^verbatim>\<open>numeric_cols\<close>, in the order of the source.\<close>

definition coerce_numeric_cols ::
  "(string \<Rightarrow> real option) \<Rightarrow> cell csv_row list \<Rightarrow> exn + real option csv_row list" where
  "coerce_numeric_cols parse df =
     (case to_numeric parse Coerce (map renewable_share df) of
        Inl x \<Rightarrow> Inl x
      | Inr a \<Rightarrow>
     (case to_numeric parse Coerce (map gdp_per_capita df) of
        Inl x \<Rightarrow> Inl x
      | Inr b \<Rightarrow>
     (case to_numeric parse Coerce (map value_co2_emissions df) of
        Inl x \<Rightarrow> Inl x
      | Inr c \<Rightarrow> Inr (set_numeric_cols df a b c))))"

text \<open>\<^verbatim>\<open>Series.max()\<close>: the greatest value that is not missing, missing when there is none.\<close>

fun nanmax :: "'a::linorder option list \<Rightarrow> 'a option" where
  "nanmax [] = None"
| "nanmax (None # xs) = nanmax xs"
| "nanmax (Some x # xs) = (case nanmax xs of None \<Rightarrow> Some x | Some m \<Rightarrow> Some (max x m))"

text \<open>Elementwise \<^verbatim>\<open>==\<close> against a scalar: a missing value equals nothing.\<close>

fun eq_nan :: "'a option \<Rightarrow> 'a option \<Rightarrow> bool" where
  "eq_nan (Some x) (Some y) = (x = y)"
| "eq_nan _ _ = False"

definition latest_year :: "('c, 'm) csv_row_scheme list \<Rightarrow> int option" where
  "latest_year df = nanmax (map Year df)"

definition latest_rows :: "('c, 'm) csv_row_scheme list \<Rightarrow> ('c, 'm) csv_row_scheme list" where
  "latest_rows df = filter (\<lambda>r. eq_nan (Year r) (latest_year df)) df"

text \<open>\<^verbatim>\<open>fillna(0)\<close> on one value.\<close>

fun fillna :: "real \<Rightarrow> real option \<Rightarrow> real" where
  "fillna d None = d"
| "fillna d (Some x) = x"

definition sustainability_score :: "(real option, 'm) csv_row_scheme \<Rightarrow> real" where
  "sustainability_score r =
     fillna 0 (renewable_share r) + fillna 0 (access_to_electricity r)
     + (100 - fillna 0 (energy_intensity r) / 10)"

definition add_sustainability :: "real option csv_row \<Rightarrow> real option sust_row" where
  "add_sustainability r = csv_row.extend r (sust_row.fields (sustainability_score r))"

subsection \<open>Scorer\<close>

text \<open>
  The four columns handed to the scaler, in the order of the source, each with
  \<^verbatim>\<open>fillna(0)\<close> applied.
\<close>

definition investment_factors :: "(real option, 'm) csv_row_scheme list \<Rightarrow> real list list" where
  "investment_factors latest_df =
     [map (\<lambda>r. fillna 0 (access_to_electricity r)) latest_df,
      map (\<lambda>r. fillna 0 (renewable_share r)) latest_df,
      map (\<lambda>r. fillna 0 (gdp_per_capita r)) latest_df,
      map (\<lambda>r. fillna 0 (renewable_capacity_per_capita r)) latest_df]"

text \<open>
  Arithmetic on values that may be missing: a missing operand gives a missing result, and
  so does a division by zero (the quotient is not a finite number).
\<close>

fun nan2 :: "(real \<Rightarrow> real \<Rightarrow> real) \<Rightarrow> real option \<Rightarrow> real option \<Rightarrow> real option" where
  "nan2 f (Some x) (Some y) = Some (f x y)"
| "nan2 f _ _ = None"

definition fdiv :: "real \<Rightarrow> real \<Rightarrow> real option" where
  "fdiv a b = (if b = 0 then None else Some (a / b))"

text \<open>
  \<^verbatim>\<open>MinMaxScaler\<close> with the default feature range \<open>(0, 1)\<close>, one feature at a time.
  A range below ten machine epsilons counts as constant and is replaced by 1 before the
  division. An empty column is refused.
\<close>

definition eps :: real where
  "eps = 1 / 2 ^ 52"

definition handle_zeros_in_scale :: "real \<Rightarrow> real" where
  "handle_zeros_in_scale scale = (if scale < 10 * eps then 1 else scale)"

fun minmax_fit :: "real list \<Rightarrow> exn + (real option \<times> real option)" where
  "minmax_fit [] = Inl ValueError"
| "minmax_fit (x # xs) =
     (let data_min = fold min xs x;
          data_max = fold max xs x;
          data_range = data_max - data_min;
          scale = fdiv (1 - 0) (handle_zeros_in_scale data_range);
          min0 = nan2 (-) (Some 0) (nan2 (*) (Some data_min) scale)
      in Inr (scale, min0))"

definition minmax_transform :: "real option \<times> real option \<Rightarrow> real list \<Rightarrow> real option list" where
  "minmax_transform sm col =
     map (\<lambda>x. nan2 (+) (nan2 (*) (Some x) (fst sm)) (snd sm)) col"

definition minmax_column :: "real list \<Rightarrow> exn + real option list" where
  "minmax_column col =
     (case minmax_fit col of Inl e \<Rightarrow> Inl e | Inr sm \<Rightarrow> Inr (minmax_transform sm col))"

fun scale_columns :: "real list list \<Rightarrow> exn + real option list list" where
  "scale_columns [] = Inr []"
| "scale_columns (c # cs) =
     (case minmax_column c of
        Inl e \<Rightarrow> Inl e
      | Inr d \<Rightarrow> (case scale_columns cs of Inl e \<Rightarrow> Inl e | Inr ds \<Rightarrow> Inr (d # ds)))"

definition fit_transform :: "real list list \<Rightarrow> exn + real option list list" where
  "fit_transform X = (if X = [] then Inl ValueError else scale_columns X)"

text \<open>The weighted sum of the four scaled columns, added left to right as written.\<close>

definition weighted :: "real option \<Rightarrow> real option \<Rightarrow> real option \<Rightarrow> real option \<Rightarrow> real option" where
  "weighted a r g c =
     nan2 (+) (nan2 (+) (nan2 (+) (nan2 (*) a (Some 0.3)) (nan2 (*) r (Some 0.4)))
                        (nan2 (*) g (Some 0.2)))
              (nan2 (*) c (Some 0.1))"

fun investment_score ::
  "real option list \<Rightarrow> real option list \<Rightarrow> real option list \<Rightarrow> real option list \<Rightarrow>
   real option list" where
  "investment_score (a # as) (r # rs) (g # gs) (c # cs) =
     weighted a r g c # investment_score as rs gs cs"
| "investment_score _ _ _ _ = []"

fun set_investment_score ::
  "real option sust_row list \<Rightarrow> real option list \<Rightarrow> real option inv_row list" where
  "set_investment_score (r # rs) (s # ss) =
     sust_row.extend r (inv_row.fields s) # set_investment_score rs ss"
| "set_investment_score _ _ = []"

definition scorer :: "real option sust_row list \<Rightarrow> exn + real option inv_row list" where
  "scorer latest_df =
     (case fit_transform (investment_factors latest_df) of
        Inl e \<Rightarrow> Inl e
      | Inr investment_factors_scaled \<Rightarrow>
          (case investment_factors_scaled of
             [a, r, g, c] \<Rightarrow> Inr (set_investment_score latest_df (investment_score a r g c))
           | _ \<Rightarrow> Inl KeyError))"

subsection \<open>Selector\<close>

text \<open>Elementwise \<^verbatim>\<open>>\<close> against a scalar: a missing value is greater than nothing.\<close>

fun gt :: "real option \<Rightarrow> real \<Rightarrow> bool" where
  "gt None t = False"
| "gt (Some x) t = (t < x)"

definition promising_mask :: "(real option, 'm) inv_row_scheme \<Rightarrow> bool" where
  "promising_mask r =
     (gt (Investment_Score r) 0.7 \<and> gt (gdp_per_capita r) 3000 \<and> gt (renewable_share r) 20)"

text \<open>Positional selection: an index outside the list raises.\<close>

definition take_idx :: "'a list \<Rightarrow> nat list \<Rightarrow> exn + 'a list" where
  "take_idx xs js =
     (if \<forall>j \<in> set js. j < length xs then Inr (map (\<lambda>j. xs ! j) js) else Inl IndexError)"

text \<open>
  The library's \<^verbatim>\<open>nargsort\<close>, which \<^verbatim>\<open>sort_values\<close> calls for a single sort column:
  missing values are set aside and placed last; for a descending sort the values and
  their positions are reversed, sorted ascending by \<^verbatim>\<open>argsort\<close>, and the result is
  reversed again. The sorting algorithm \<^verbatim>\<open>argsort\<close> is a parameter.
\<close>

definition nargsort :: "(real list \<Rightarrow> nat list) \<Rightarrow> bool \<Rightarrow> real option list \<Rightarrow> exn + nat list" where
  "nargsort argsort ascending items =
     (let numbered = zip [0..<length items] items;
          nan_idx = map fst (filter (\<lambda>p. snd p = None) numbered);
          present = filter (\<lambda>p. snd p \<noteq> None) numbered;
          non_nans = (if ascending then map (\<lambda>p. the (snd p)) present
                      else rev (map (\<lambda>p. the (snd p)) present));
          non_nan_idx = (if ascending then map fst present else rev (map fst present))
      in case take_idx non_nan_idx (argsort non_nans) of
           Inl e \<Rightarrow> Inl e
         | Inr indexer \<Rightarrow> Inr ((if ascending then indexer else rev indexer) @ nan_idx))"

definition sort_values ::
  "(real list \<Rightarrow> nat list) \<Rightarrow> ('a \<Rightarrow> real option) \<Rightarrow> bool \<Rightarrow> 'a list \<Rightarrow> exn + 'a list" where
  "sort_values argsort by ascending rows =
     (case nargsort argsort ascending (map by rows) of
        Inl e \<Rightarrow> Inl e
      | Inr indexer \<Rightarrow> take_idx rows indexer)"

definition promising_countries ::
  "(real list \<Rightarrow> nat list) \<Rightarrow> real option inv_row list \<Rightarrow> exn + real option inv_row list" where
  "promising_countries argsort latest_df =
     sort_values argsort Investment_Score False (filter promising_mask latest_df)"

subsection \<open>The default sorting algorithm\<close>

text \<open>
  \<^verbatim>\<open>sort_values\<close> is called without \<^verbatim>\<open>kind\<close>, so the sort is the array library's
  \<^verbatim>\<open>argsort(kind='quicksort')\<close>: an introsort over the array \<open>t\<close> of positions, comparing
  the values \<open>v\<close> they point to. Ranges of more than 17 positions are split by a
  median-of-three partition that swaps positions, shorter ranges are sorted by insertion,
  and a range reached after the depth budget is spent is sorted by heapsort. The bounds
  \<open>pl\<close> and \<open>pr\<close> in the two scans are the sentinels the partition itself provides.
\<close>

definition INTP_SWAP :: "nat list \<Rightarrow> nat \<Rightarrow> nat \<Rightarrow> nat list" where
  "INTP_SWAP t i j = t[i := t ! j, j := t ! i]"

function scan_up :: "real list \<Rightarrow> nat list \<Rightarrow> real \<Rightarrow> nat \<Rightarrow> nat \<Rightarrow> nat" where
  "scan_up v t vp pr pI =
     (if Suc pI < pr \<and> v ! (t ! Suc pI) < vp then scan_up v t vp pr (Suc pI) else Suc pI)"
  by pat_completeness auto
termination
  by (relation "measure (\<lambda>(v, t, vp, pr, pI). pr - pI)") auto

function scan_down :: "real list \<Rightarrow> nat list \<Rightarrow> real \<Rightarrow> nat \<Rightarrow> nat \<Rightarrow> nat" where
  "scan_down v t vp pl pJ =
     (if pl < pJ - 1 \<and> vp < v ! (t ! (pJ - 1)) then scan_down v t vp pl (pJ - 1) else pJ - 1)"
  by pat_completeness auto
termination
  by (relation "measure (\<lambda>(v, t, vp, pl, pJ). pJ)") auto

declare scan_up.simps [simp del] scan_down.simps [simp del]

lemma scan_up_bounds: "pI < scan_up v t vp pr pI \<and> (pI < pr \<longrightarrow> scan_up v t vp pr pI \<le> pr)"
proof (induction v t vp pr pI rule: scan_up.induct)
  case (1 v t vp pr pI)
  show ?case
    using 1 scan_up.simps[of v t vp pr pI] by (cases "Suc pI < pr \<and> v ! (t ! Suc pI) < vp") auto
qed

lemma scan_down_le: "scan_down v t vp pl pJ \<le> pJ"
proof (induction v t vp pl pJ rule: scan_down.induct)
  case (1 v t vp pl pJ)
  show ?case
    using 1 scan_down.simps[of v t vp pl pJ] by (cases "pl < pJ - 1 \<and> vp < v ! (t ! (pJ - 1))") auto
qed

function hoare :: "real list \<Rightarrow> nat list \<Rightarrow> real \<Rightarrow> nat \<Rightarrow> nat \<Rightarrow> nat \<Rightarrow> nat \<Rightarrow> nat list \<times> nat" where
  "hoare v t vp pl pr pI pJ =
     (let pI' = scan_up v t vp pr pI; pJ' = scan_down v t vp pl pJ
      in if pJ' \<le> pI' then (t, pI') else hoare v (INTP_SWAP t pI' pJ') vp pl pr pI' pJ')"
  by pat_completeness auto
termination
proof (relation "measure (\<lambda>(v, t, vp, pl, pr, pI, pJ). pJ - pI)", goal_cases)
  case 1 show ?case by simp
next
  case (2 v t vp pl pr pI pJ x xa)
  then show ?case using scan_up_bounds[of pI v t vp pr] scan_down_le[of v t vp pl pJ] by auto
qed

declare hoare.simps [simp del]

lemma hoare_bounds:
  "pI < pr \<Longrightarrow> pJ \<le> pr \<Longrightarrow>
   pI < snd (hoare v t vp pl pr pI pJ) \<and> snd (hoare v t vp pl pr pI pJ) \<le> pr"
proof (induction v t vp pl pr pI pJ rule: hoare.induct)
  case (1 v t vp pl pr pI pJ)
  have a: "pI < scan_up v t vp pr pI" "scan_up v t vp pr pI \<le> pr"
    using scan_up_bounds[of pI v t vp pr] 1(2) by auto
  have b: "scan_down v t vp pl pJ \<le> pJ" by (rule scan_down_le)
  show ?case
  proof (cases "scan_down v t vp pl pJ \<le> scan_up v t vp pr pI")
    case True
    then show ?thesis using a hoare.simps[of v t vp pl pr pI pJ] by (simp add: Let_def)
  next
    case False
    then have "scan_up v t vp pr pI < pr" "scan_down v t vp pl pJ \<le> pr"
      using a b 1(3) by auto
    from 1(1)[OF refl refl False this] False a show ?thesis
      using hoare.simps[of v t vp pl pr pI pJ] by (simp add: Let_def)
  qed
qed

definition qpartition :: "real list \<Rightarrow> nat list \<Rightarrow> nat \<Rightarrow> nat \<Rightarrow> nat list \<times> nat" where
  "qpartition v t0 pl pr =
     (let pm = pl + (pr - pl) div 2;
          t1 = (if v ! (t0 ! pm) < v ! (t0 ! pl) then INTP_SWAP t0 pm pl else t0);
          t2 = (if v ! (t1 ! pr) < v ! (t1 ! pm) then INTP_SWAP t1 pr pm else t1);
          t3 = (if v ! (t2 ! pm) < v ! (t2 ! pl) then INTP_SWAP t2 pm pl else t2);
          vp = v ! (t3 ! pm);
          t4 = INTP_SWAP t3 pm (pr - 1);
          (t5, pI) = hoare v t4 vp pl pr pl (pr - 1)
      in (INTP_SWAP t5 pI (pr - 1), pI))"

lemma partition_bounds:
  assumes "pl < pr"
  shows "pl < snd (qpartition v t pl pr) \<and> snd (qpartition v t pl pr) \<le> pr"
proof -
  have "\<And>t' vp. pl < snd (hoare v t' vp pl pr pl (pr - 1)) \<and> snd (hoare v t' vp pl pr pl (pr - 1)) \<le> pr"
    using assms by (intro hoare_bounds) auto
  then show ?thesis
    unfolding qpartition_def Let_def by (simp add: case_prod_unfold)
qed

function ins_shift :: "real list \<Rightarrow> nat list \<Rightarrow> real \<Rightarrow> nat \<Rightarrow> nat \<Rightarrow> nat list \<times> nat" where
  "ins_shift v t vp pl pJ =
     (if pl < pJ \<and> vp < v ! (t ! (pJ - 1))
      then ins_shift v (t[pJ := t ! (pJ - 1)]) vp pl (pJ - 1) else (t, pJ))"
  by pat_completeness auto
termination
  by (relation "measure (\<lambda>(v, t, vp, pl, pJ). pJ)") auto

function insertion :: "real list \<Rightarrow> nat list \<Rightarrow> nat \<Rightarrow> nat \<Rightarrow> nat \<Rightarrow> nat list" where
  "insertion v t pl pr pI =
     (if pI \<le> pr
      then (let vi = t ! pI; (t', pJ) = ins_shift v t (v ! vi) pl pI
            in insertion v (t'[pJ := vi]) pl pr (Suc pI))
      else t)"
  by pat_completeness auto
termination
  by (relation "measure (\<lambda>(v, t, pl, pr, pI). Suc pr - pI)") auto

declare ins_shift.simps [simp del] insertion.simps [simp del]

function sift :: "real list \<Rightarrow> nat list \<Rightarrow> nat \<Rightarrow> nat \<Rightarrow> nat \<Rightarrow> nat \<Rightarrow> nat \<Rightarrow> nat list" where
  "sift v t b n tmp i j =
     (if 0 < j \<and> j \<le> n
      then (let k = (if j < n \<and> v ! (t ! (b + j - 1)) < v ! (t ! (b + j)) then j + 1 else j)
            in if v ! tmp < v ! (t ! (b + k - 1))
               then sift v (t[b + i - 1 := t ! (b + k - 1)]) b n tmp k (k + k)
               else t[b + i - 1 := tmp])
      else t[b + i - 1 := tmp])"
  by pat_completeness auto
termination
  by (relation "measure (\<lambda>(v, t, b, n, tmp, i, j). Suc n - j)") auto

declare sift.simps [simp del]

fun heapify :: "real list \<Rightarrow> nat list \<Rightarrow> nat \<Rightarrow> nat \<Rightarrow> nat \<Rightarrow> nat list" where
  "heapify v t b n 0 = t"
| "heapify v t b n (Suc l) =
     heapify v (sift v t b n (t ! (b + l)) (Suc l) (2 * Suc l)) b n l"

fun heap_pop :: "real list \<Rightarrow> nat list \<Rightarrow> nat \<Rightarrow> nat \<Rightarrow> nat list" where
  "heap_pop v t b 0 = t"
| "heap_pop v t b (Suc m) =
     (if 0 < m
      then (let tmp = t ! (b + m); t' = t[b + m := t ! b]
            in heap_pop v (sift v t' b m tmp 1 2) b m)
      else t)"

definition aheapsort :: "real list \<Rightarrow> nat list \<Rightarrow> nat \<Rightarrow> nat \<Rightarrow> nat list" where
  "aheapsort v t b n = heap_pop v (heapify v t b n (n div 2)) b n"

fun npy_get_msb :: "nat \<Rightarrow> nat" where
  "npy_get_msb n = (if n < 2 then 0 else Suc (npy_get_msb (n div 2)))"

declare npy_get_msb.simps [simp del]

function aquicksort_range ::
  "real list \<Rightarrow> nat list \<Rightarrow> nat \<Rightarrow> nat \<Rightarrow> int \<Rightarrow> bool \<Rightarrow> nat list" where
  "aquicksort_range v t pl pr cdepth popped =
     (if popped \<and> cdepth < 0 then aheapsort v t pl (pr - pl + 1)
      else if 16 < pr - pl
      then (let (t', pI) = qpartition v t pl pr
            in if pI - pl < pr - pI
               then aquicksort_range v (aquicksort_range v t' pl (pI - 1) (cdepth - 1) False)
                      (pI + 1) pr (cdepth - 1) True
               else aquicksort_range v (aquicksort_range v t' (pI + 1) pr (cdepth - 1) False)
                      pl (pI - 1) (cdepth - 1) True)
      else insertion v t pl pr (pl + 1))"
  by pat_completeness auto
termination
proof (relation "measure (\<lambda>(v, t, pl, pr, cdepth, popped). pr - pl)", goal_cases)
  case 1 show ?case by simp
next
  case (2 v t pl pr cdepth popped x xa y)
  then have "y = snd (qpartition v t pl pr)" "pl < pr" by (auto simp: snd_def split: prod.splits)
  then show ?case using partition_bounds[of pl pr v t] by auto
next
  case (3 v t pl pr cdepth popped x xa y)
  then have "y = snd (qpartition v t pl pr)" "pl < pr" by (auto simp: snd_def split: prod.splits)
  then show ?case using partition_bounds[of pl pr v t] by auto
next
  case (4 v t pl pr cdepth popped x xa y)
  then have "y = snd (qpartition v t pl pr)" "pl < pr" by (auto simp: snd_def split: prod.splits)
  then show ?case using partition_bounds[of pl pr v t] by auto
next
  case (5 v t pl pr cdepth popped x xa y)
  then have "y = snd (qpartition v t pl pr)" "pl < pr" by (auto simp: snd_def split: prod.splits)
  then show ?case using partition_bounds[of pl pr v t] by auto
qed

declare aquicksort_range.simps [simp del]

definition aquicksort :: "real list \<Rightarrow> nat list" where
  "aquicksort v =
     (let num = length v
      in if num = 0 then []
         else aquicksort_range v [0..<num] 0 (num - 1) (2 * int (npy_get_msb num)) False)"

subsection \<open>The script over a store of frames\<close>

text \<open>
  A variable of the script holds a reference to a frame object. Assigning a column
  (\<^verbatim>\<open>frame[col] = ...\<close>) changes the object in place; indexing by a mask, \<^verbatim>\<open>copy\<close>,
  \<^verbatim>\<open>fillna\<close> and \<^verbatim>\<open>sort_values\<close> return a new object. The store maps references to
  frames; a frame is tagged with the columns it has.
\<close>

datatype frame =
    Csv "cell csv_row list"
  | Numeric "real option csv_row list"
  | With_Sustainability "real option sust_row list"
  | With_Investment "real option inv_row list"
  | Columns "real option list list"

record store =
  objs :: "nat \<Rightarrow> frame option"
  fresh :: nat

definition empty_store :: store where
  "empty_store = \<lparr>objs = (\<lambda>a. None), fresh = 0\<rparr>"

definition new_object :: "frame \<Rightarrow> store \<Rightarrow> nat \<times> store" where
  "new_object f s = (fresh s, s\<lparr>objs := (objs s)(fresh s \<mapsto> f), fresh := Suc (fresh s)\<rparr>)"

definition set_object :: "nat \<Rightarrow> frame \<Rightarrow> store \<Rightarrow> store" where
  "set_object a f s = s\<lparr>objs := (objs s)(a \<mapsto> f)\<rparr>"

text \<open>Sequencing of statements that may raise.\<close>

definition bind :: "exn + 'a \<Rightarrow> ('a \<Rightarrow> exn + 'b) \<Rightarrow> exn + 'b" where
  "bind m k = (case m of Inl e \<Rightarrow> Inl e | Inr x \<Rightarrow> k x)"

text \<open>\<^verbatim>\<open>for col in numeric_cols: df[col] = pd.to_numeric(df[col], errors='coerce')\<close>\<close>

definition coerce_in_place :: "(string \<Rightarrow> real option) \<Rightarrow> nat \<Rightarrow> store \<Rightarrow> exn + store" where
  "coerce_in_place parse df s =
     (case objs s df of
        Some (Csv rows) \<Rightarrow>
          bind (coerce_numeric_cols parse rows) (\<lambda>rows'. Inr (set_object df (Numeric rows') s))
      | _ \<Rightarrow> Inl KeyError)"

text \<open>\<^verbatim>\<open>df[df['Year'] == latest_year]\<close>\<close>

definition getitem_latest :: "nat \<Rightarrow> store \<Rightarrow> exn + (nat \<times> store)" where
  "getitem_latest df s =
     (case objs s df of
        Some (Numeric rows) \<Rightarrow> Inr (new_object (Numeric (latest_rows rows)) s)
      | _ \<Rightarrow> Inl KeyError)"

text \<open>\<^verbatim>\<open>.copy()\<close>\<close>

definition copy :: "nat \<Rightarrow> store \<Rightarrow> exn + (nat \<times> store)" where
  "copy a s = (case objs s a of Some f \<Rightarrow> Inr (new_object f s) | None \<Rightarrow> Inl KeyError)"

text \<open>\<^verbatim>\<open>latest_df['Sustainability Score'] = ...\<close>\<close>

definition set_sustainability :: "nat \<Rightarrow> store \<Rightarrow> exn + store" where
  "set_sustainability a s =
     (case objs s a of
        Some (Numeric rows) \<Rightarrow> Inr (set_object a (With_Sustainability (map add_sustainability rows)) s)
      | _ \<Rightarrow> Inl KeyError)"

definition year_max :: "nat \<Rightarrow> store \<Rightarrow> exn + int option" where
  "year_max df s =
     (case objs s df of Some (Numeric rows) \<Rightarrow> Inr (latest_year rows) | _ \<Rightarrow> Inl KeyError)"

text \<open>
  \<^verbatim>\<open>load_data\<close>: returns the references \<^verbatim>\<open>df\<close> and \<^verbatim>\<open>latest_df\<close> and the year.
\<close>

definition load_data ::
  "(string \<Rightarrow> real option) \<Rightarrow> cell csv_row list \<Rightarrow> store \<Rightarrow> exn + ((nat \<times> nat \<times> int option) \<times> store)" where
  "load_data parse csv s0 =
     (let (df, s1) = new_object (Csv csv) s0
      in bind (coerce_in_place parse df s1) (\<lambda>s2.
         bind (year_max df s2) (\<lambda>year.
         bind (getitem_latest df s2) (\<lambda>(selected, s3).
         bind (copy selected s3) (\<lambda>(latest_df, s4).
         bind (set_sustainability latest_df s4) (\<lambda>s5.
         Inr ((df, latest_df, year), s5)))))))"

text \<open>
  Lines 52 to 71: the factor frame and the scaled frame are new objects, the score
  becomes a column of \<^verbatim>\<open>latest_df\<close>.
\<close>

definition add_investment_score :: "nat \<Rightarrow> store \<Rightarrow> exn + store" where
  "add_investment_score latest_df s =
     (case objs s latest_df of
        Some (With_Sustainability rows) \<Rightarrow>
          (let (factors, s1) = new_object (Columns (map (map Some) (investment_factors rows))) s
           in bind (fit_transform (investment_factors rows)) (\<lambda>scaled.
              let (investment_factors_scaled, s2) = new_object (Columns scaled) s1
              in bind (scorer rows) (\<lambda>rows'.
                 Inr (set_object latest_df (With_Investment rows') s2))))
      | _ \<Rightarrow> Inl KeyError)"

text \<open>Lines 153 to 157: the mask selects into a new frame, the sort returns another.\<close>

definition select_promising :: "(real list \<Rightarrow> nat list) \<Rightarrow> nat \<Rightarrow> store \<Rightarrow> exn + (nat \<times> store)" where
  "select_promising argsort latest_df s =
     (case objs s latest_df of
        Some (With_Investment rows) \<Rightarrow>
          (let (masked, s1) = new_object (With_Investment (filter promising_mask rows)) s
           in bind (promising_countries argsort rows) (\<lambda>sorted_rows.
              Inr (new_object (With_Investment sorted_rows) s1)))
      | _ \<Rightarrow> Inl KeyError)"

text \<open>The references the script holds at its end.\<close>

record vars =
  df_ref :: nat
  latest_df_ref :: nat
  latest_year_val :: "int option"
  promising_ref :: nat

definition script ::
  "(string \<Rightarrow> real option) \<Rightarrow> (real list \<Rightarrow> nat list) \<Rightarrow> cell csv_row list \<Rightarrow> exn + (vars \<times> store)" where
  "script parse argsort csv =
     bind (load_data parse csv empty_store) (\<lambda>((d, l, y), s1).
     bind (add_investment_score l s1) (\<lambda>s2.
     bind (select_promising argsort l s2) (\<lambda>(p, s3).
     Inr (\<lparr>df_ref = d, latest_df_ref = l, latest_year_val = y, promising_ref = p\<rparr>, s3))))"

subsection \<open>Auxiliary definitions and examples\<close>

text \<open>What a cell becomes under \<^verbatim>\<open>errors='coerce'\<close>, and a row with its three cells converted.\<close>

definition numeric_value :: "(string \<Rightarrow> real option) \<Rightarrow> cell \<Rightarrow> real option" where
  "numeric_value parse c = (case c of NaN \<Rightarrow> None | Num x \<Rightarrow> Some x | Str s \<Rightarrow> parse s)"

definition coerce_row :: "(string \<Rightarrow> real option) \<Rightarrow> cell csv_row \<Rightarrow> real option csv_row" where
  "coerce_row parse r =
     \<lparr>Entity = Entity r, Year = Year r, renewable_share = numeric_value parse (renewable_share r),
      access_to_electricity = access_to_electricity r,
      gdp_per_capita = numeric_value parse (gdp_per_capita r),
      value_co2_emissions = numeric_value parse (value_co2_emissions r),
      renewable_capacity_per_capita = renewable_capacity_per_capita r,
      energy_intensity = energy_intensity r\<rparr>"

text \<open>A row whose year is present and is at least every year present in the frame.\<close>

definition has_maximum_year :: "('c, 'm) csv_row_scheme list \<Rightarrow> ('c, 'm) csv_row_scheme \<Rightarrow> bool" where
  "has_maximum_year d r =
     (\<exists>y. Year r = Some y \<and> (\<forall>r' \<in> set d. \<forall>z. Year r' = Some z \<longrightarrow> z \<le> y))"

text \<open>An example recogniser (digit strings only) and an example table.\<close>

definition parse_digits :: "string \<Rightarrow> real option" where
  "parse_digits s =
     (if s \<noteq> [] \<and> (\<forall>c \<in> set s. c \<in> set ''0123456789'')
      then Some (real (foldl (\<lambda>n c. 10 * n + (of_char c - 48)) 0 s)) else None)"

definition example_csv :: "cell csv_row list" where
  "example_csv =
     [\<lparr>Entity = ''A'', Year = Some 2019, renewable_share = Num 30,
       access_to_electricity = Some 90, gdp_per_capita = Str ''n/a'',
       value_co2_emissions = NaN, renewable_capacity_per_capita = Some 1,
       energy_intensity = Some 5\<rparr>,
      \<lparr>Entity = ''B'', Year = Some 2020, renewable_share = Str ''forty'',
       access_to_electricity = Some 95, gdp_per_capita = Str ''4000'',
       value_co2_emissions = Str ''?'', renewable_capacity_per_capita = None,
       energy_intensity = Some 20\<rparr>,
      \<lparr>Entity = ''C'', Year = Some 2020, renewable_share = Num 10,
       access_to_electricity = None, gdp_per_capita = Num 500,
       value_co2_emissions = Num 7, renewable_capacity_per_capita = Some 2,
       energy_intensity = Some 3000\<rparr>,
      \<lparr>Entity = ''D'', Year = None, renewable_share = Num 50,
       access_to_electricity = Some 100, gdp_per_capita = Num 9000,
       value_co2_emissions = Num 1, renewable_capacity_per_capita = Some 3,
       energy_intensity = None\<rparr>]"

text \<open>
  The scaled value in the words of the specification, with the library's replacement of
  a vanishing range, and the Investment Score as the weighted sum of the scaled inputs.
\<close>

definition normalized :: "real list \<Rightarrow> real \<Rightarrow> real" where
  "normalized col y =
     (y - Min (set col)) / handle_zeros_in_scale (Max (set col) - Min (set col))"


definition spec_investment_score :: "(real option, 'm) csv_row_scheme list \<Rightarrow> (real option, 'm) csv_row_scheme \<Rightarrow> real" where
  "spec_investment_score rows r =
     3 / 10 * normalized (investment_factors rows ! 0) (fillna 0 (access_to_electricity r))
     + 4 / 10 * normalized (investment_factors rows ! 1) (fillna 0 (renewable_share r))
     + 2 / 10 * normalized (investment_factors rows ! 2) (fillna 0 (gdp_per_capita r))
     + 1 / 10 * normalized (investment_factors rows ! 3) (fillna 0 (renewable_capacity_per_capita r))"

text \<open>
  Example snapshots: the one of the specification, and one with a constant column.
\<close>

definition example_row :: "string \<Rightarrow> real \<Rightarrow> real \<Rightarrow> real \<Rightarrow> real \<Rightarrow> real option sust_row" where
  "example_row e a r g c =
     add_sustainability
       \<lparr>Entity = e, Year = Some 2020, renewable_share = Some r,
        access_to_electricity = Some a, gdp_per_capita = Some g,
        value_co2_emissions = None, renewable_capacity_per_capita = Some c,
        energy_intensity = None\<rparr>"


definition constant_capacity_example :: "real option sust_row list" where
  "constant_capacity_example = [example_row ''A'' 80 50 5000 10, example_row ''B'' 20 10 1000 10]"

text \<open>
  What the library promises of \<^verbatim>\<open>argsort\<close>: it returns every position once, and the
  values read in that order ascend. The stable sort is the one \<^verbatim>\<open>kind='stable'\<close> selects.
\<close>

definition permutes :: "(real list \<Rightarrow> nat list) \<Rightarrow> bool" where
  "permutes argsort = (\<forall>v. mset (argsort v) = mset [0..<length v])"



text \<open>
  Example scored snapshots for the selector: one with rows failing each threshold, and
  one with 18 rows of equal score.
\<close>

definition scored_row :: "string \<Rightarrow> real option \<Rightarrow> real option \<Rightarrow> real option \<Rightarrow> real option inv_row" where
  "scored_row e s g p =
     \<lparr>Entity = e, Year = Some 2020, renewable_share = p, access_to_electricity = Some 100,
      gdp_per_capita = g, value_co2_emissions = None, renewable_capacity_per_capita = None,
      energy_intensity = None, Sustainability_Score = 0, Investment_Score = s\<rparr>"

definition selector_example :: "real option inv_row list" where
  "selector_example =
     [scored_row ''A'' (Some 0.8) (Some 5000) (Some 50),
      scored_row ''B'' (Some 0.9) (Some 2000) (Some 50),
      scored_row ''C'' (Some 0.95) (Some 5000) (Some 10),
      scored_row ''D'' (Some 0.6) (Some 5000) (Some 50),
      scored_row ''E'' (Some 0.9) (Some 4000) (Some 30),
      scored_row ''F'' (Some 0.9) None (Some 30),
      scored_row ''G'' (Some 0.9) (Some 4000) None]"





text \<open>
  The frame \<^verbatim>\<open>df\<close> after the coercion loop, and \<^verbatim>\<open>latest_df\<close> as
  \<^verbatim>\<open>load_data\<close> returns it.
\<close>

definition loaded :: "(string \<Rightarrow> real option) \<Rightarrow> cell csv_row list \<Rightarrow> real option csv_row list" where
  "loaded parse csv = map (coerce_row parse) csv"

definition snapshot :: "(string \<Rightarrow> real option) \<Rightarrow> cell csv_row list \<Rightarrow> real option sust_row list" where
  "snapshot parse csv = map add_sustainability (latest_rows (loaded parse csv))"

(*DEFS_END*)

section \<open>Properties\<close>

subsection \<open>Loader\<close>

lemma to_numeric_cell_coerce: "to_numeric_cell parse Coerce c = Inr (numeric_value parse c)"
  by (cases c) (auto simp: numeric_value_def split: option.splits)

lemma to_numeric_coerce: "to_numeric parse Coerce cs = Inr (map (numeric_value parse) cs)"
  by (induction cs) (simp_all add: to_numeric_cell_coerce)

lemma set_numeric_cols_map:
  "set_numeric_cols rows (map (\<lambda>r. f (renewable_share r)) rows)
     (map (\<lambda>r. f (gdp_per_capita r)) rows) (map (\<lambda>r. f (value_co2_emissions r)) rows)
   = map (\<lambda>r. \<lparr>Entity = Entity r, Year = Year r, renewable_share = f (renewable_share r),
      access_to_electricity = access_to_electricity r,
      gdp_per_capita = f (gdp_per_capita r),
      value_co2_emissions = f (value_co2_emissions r),
      renewable_capacity_per_capita = renewable_capacity_per_capita r,
      energy_intensity = energy_intensity r\<rparr>) rows"
  by (induction rows) simp_all

lemma coerce_numeric_cols_eq: "coerce_numeric_cols parse csv = Inr (map (coerce_row parse) csv)"
  using set_numeric_cols_map[of csv "numeric_value parse"]
  by (simp add: coerce_numeric_cols_def to_numeric_coerce coerce_row_def comp_def map_map)

lemma load_data_eq:
  "load_data parse csv empty_store =
     Inr ((0, 2, latest_year (map (coerce_row parse) csv)),
          \<lparr>objs = (\<lambda>a. None)(0 \<mapsto> Numeric (map (coerce_row parse) csv),
                   1 \<mapsto> Numeric (latest_rows (map (coerce_row parse) csv)),
                   2 \<mapsto> With_Sustainability (map add_sustainability (latest_rows (map (coerce_row parse) csv)))),
           fresh = 3\<rparr>)"
  by (simp add: load_data_def empty_store_def new_object_def coerce_in_place_def bind_def
      coerce_numeric_cols_eq set_object_def year_max_def getitem_latest_def copy_def
      set_sustainability_def eval_nat_numeral fun_upd_twist)

lemma nanmax_None: "nanmax xs = None \<longleftrightarrow> (\<forall>x \<in> set xs. x = None)"
  by (induction xs rule: nanmax.induct) (auto split: option.splits)

lemma nanmax_Some:
  "nanmax xs = Some m \<longleftrightarrow> Some m \<in> set xs \<and> (\<forall>z. Some z \<in> set xs \<longrightarrow> z \<le> m)"
proof (induction xs arbitrary: m rule: nanmax.induct)
  case 1
  then show ?case by simp
next
  case (2 xs)
  then show ?case by auto
next
  case (3 x xs)
  show ?case
  proof (cases "nanmax xs")
    case None
    then have "\<forall>z. Some z \<notin> set xs" using nanmax_None[of xs] by auto
    with None show ?thesis by auto
  next
    case (Some k)
    then have k: "Some k \<in> set xs" "\<forall>z. Some z \<in> set xs \<longrightarrow> z \<le> k"
      using 3[of k] by auto
    show ?thesis
    proof
      assume "nanmax (Some x # xs) = Some m"
      then have "m = max x k" using Some by simp
      then show "Some m \<in> set (Some x # xs) \<and> (\<forall>z. Some z \<in> set (Some x # xs) \<longrightarrow> z \<le> m)"
        using k by (auto simp: max_def)
    next
      assume a: "Some m \<in> set (Some x # xs) \<and> (\<forall>z. Some z \<in> set (Some x # xs) \<longrightarrow> z \<le> m)"
      then have "x \<le> m" "k \<le> m" using k by auto
      moreover have "m \<le> max x k" using a k by (auto simp: max_def)
      ultimately have "m = max x k" by (auto simp: max_def)
      then show "nanmax (Some x # xs) = Some m" using Some by simp
    qed
  qed
qed

lemma eq_nan_latest: "eq_nan (Year r) (latest_year d) \<longleftrightarrow> (\<exists>y. Year r = Some y \<and> latest_year d = Some y)"
  by (cases "Year r"; cases "latest_year d") auto

lemma latest_rows_max: "latest_rows d = filter (has_maximum_year d) d"
proof -
  have "eq_nan (Year r) (latest_year d) \<longleftrightarrow> has_maximum_year d r" if "r \<in> set d" for r
  proof -
    have "(\<exists>y. Year r = Some y \<and> latest_year d = Some y) \<longleftrightarrow> has_maximum_year d r"
      using that unfolding has_maximum_year_def latest_year_def nanmax_Some
      by (auto simp: image_iff) (metis, force)
    then show ?thesis by (simp add: eq_nan_latest)
  qed
  then show ?thesis unfolding latest_rows_def by (auto intro: filter_cong)
qed

lemma truncate_add_sustainability: "csv_row.truncate (add_sustainability r) = r"
  by (simp add: add_sustainability_def csv_row.truncate_def csv_row.extend_def)

lemma add_sustainability_fields:
  "Sustainability_Score (add_sustainability r) = sustainability_score r"
  "Year (add_sustainability r) = Year r"
  "renewable_share (add_sustainability r) = renewable_share r"
  "access_to_electricity (add_sustainability r) = access_to_electricity r"
  "energy_intensity (add_sustainability r) = energy_intensity r"
  "gdp_per_capita (add_sustainability r) = gdp_per_capita r"
  "renewable_capacity_per_capita (add_sustainability r) = renewable_capacity_per_capita r"
  "Entity (add_sustainability r) = Entity r"
  by (simp_all add: add_sustainability_def csv_row.extend_def sust_row.defs)

text \<open>
  C4. The frame \<^verbatim>\<open>latest_df\<close> that \<^verbatim>\<open>load_data\<close> returns holds, in file order and
  without its added score column, exactly the rows of the frame \<^verbatim>\<open>df\<close> whose year is
  present and is the greatest year present in \<^verbatim>\<open>df\<close>; no other row is in it.
\<close>

theorem latest_snapshot_exact:
  "\<exists>d l y s full snap.
     load_data parse csv empty_store = Inr ((d, l, y), s) \<and>
     objs s d = Some (Numeric full) \<and>
     objs s l = Some (With_Sustainability snap) \<and>
     map csv_row.truncate snap = filter (has_maximum_year full) full"
  by (simp add: load_data_eq latest_rows_max comp_def truncate_add_sustainability)

text \<open>
  C6. \<^verbatim>\<open>load_data\<close> returns without raising for every table and every recogniser of
  numeric text, and wherever a cell of one of the three coerced columns is text that the
  recogniser rejects, the same row of \<^verbatim>\<open>df\<close> holds a missing value in that column.
\<close>

theorem coerced_text_is_missing:
  "\<exists>d l y s full.
     load_data parse csv empty_store = Inr ((d, l, y), s) \<and>
     objs s d = Some (Numeric full) \<and>
     length full = length csv \<and>
     (\<forall>i < length csv. \<forall>t. parse t = None \<longrightarrow>
        (renewable_share (csv ! i) = Str t \<longrightarrow> renewable_share (full ! i) = None) \<and>
        (gdp_per_capita (csv ! i) = Str t \<longrightarrow> gdp_per_capita (full ! i) = None) \<and>
        (value_co2_emissions (csv ! i) = Str t \<longrightarrow> value_co2_emissions (full ! i) = None))"
  by (simp add: load_data_eq coerce_row_def numeric_value_def)

text \<open>
  C7. Every row of \<^verbatim>\<open>latest_df\<close> carries the sustainability score renewable share
  plus electricity access plus (100 minus a tenth of the energy intensity), each missing
  input counted as 0. Nothing clamps the score: it is negative as soon as the energy
  intensity exceeds ten times the sum of the other terms, and it is bounded neither below
  nor above.
\<close>

theorem sustainability_score_formula:
  "(\<exists>d l y s snap.
      load_data parse csv empty_store = Inr ((d, l, y), s) \<and>
      objs s l = Some (With_Sustainability snap) \<and>
      (\<forall>r \<in> set snap.
         Sustainability_Score r =
           fillna 0 (renewable_share r) + fillna 0 (access_to_electricity r)
           + (100 - fillna 0 (energy_intensity r) / 10))) \<and>
   (\<forall>r :: real option csv_row.
      10 * (fillna 0 (renewable_share r) + fillna 0 (access_to_electricity r) + 100)
        < fillna 0 (energy_intensity r) \<longrightarrow> sustainability_score r < 0) \<and>
   (\<forall>b. \<exists>r :: real option csv_row. sustainability_score r < b) \<and>
   (\<forall>b. \<exists>r :: real option csv_row. b < sustainability_score r)"
proof (intro conjI allI)
  show "\<exists>d l y s snap.
      load_data parse csv empty_store = Inr ((d, l, y), s) \<and>
      objs s l = Some (With_Sustainability snap) \<and>
      (\<forall>r \<in> set snap.
         Sustainability_Score r =
           fillna 0 (renewable_share r) + fillna 0 (access_to_electricity r)
           + (100 - fillna 0 (energy_intensity r) / 10))"
    by (auto simp add: load_data_eq add_sustainability_fields sustainability_score_def)
next
  fix r :: "real option csv_row"
  show "10 * (fillna 0 (renewable_share r) + fillna 0 (access_to_electricity r) + 100)
        < fillna 0 (energy_intensity r) \<longrightarrow> sustainability_score r < 0"
    by (simp add: sustainability_score_def)
next
  fix b :: real
  let ?r = "\<lambda>x e. \<lparr>Entity = [], Year = None, renewable_share = Some x,
      access_to_electricity = None, gdp_per_capita = None, value_co2_emissions = None,
      renewable_capacity_per_capita = None, energy_intensity = Some e\<rparr>"
  have "sustainability_score (?r 0 (10 * (101 + \<bar>b\<bar>))) < b"
    by (simp add: sustainability_score_def add_divide_distrib)
  then show "\<exists>r :: real option csv_row. sustainability_score r < b" by blast
  have "b < sustainability_score (?r (\<bar>b\<bar> + 1) 0)"
    by (simp add: sustainability_score_def)
  then show "\<exists>r :: real option csv_row. b < sustainability_score r" by blast
qed

lemma parse_digits_examples:
  "parse_digits ''n/a'' = None" "parse_digits ''forty'' = None" "parse_digits ''?'' = None"
  "parse_digits ''4000'' = Some 4000"
  by (simp_all add: parse_digits_def)

lemma example_coerced:
  "map (coerce_row parse_digits) example_csv =
     [\<lparr>Entity = ''A'', Year = Some 2019, renewable_share = Some 30,
       access_to_electricity = Some 90, gdp_per_capita = None,
       value_co2_emissions = None, renewable_capacity_per_capita = Some 1,
       energy_intensity = Some 5\<rparr>,
      \<lparr>Entity = ''B'', Year = Some 2020, renewable_share = None,
       access_to_electricity = Some 95, gdp_per_capita = Some 4000,
       value_co2_emissions = None, renewable_capacity_per_capita = None,
       energy_intensity = Some 20\<rparr>,
      \<lparr>Entity = ''C'', Year = Some 2020, renewable_share = Some 10,
       access_to_electricity = None, gdp_per_capita = Some 500,
       value_co2_emissions = Some 7, renewable_capacity_per_capita = Some 2,
       energy_intensity = Some 3000\<rparr>,
      \<lparr>Entity = ''D'', Year = None, renewable_share = Some 50,
       access_to_electricity = Some 100, gdp_per_capita = Some 9000,
       value_co2_emissions = Some 1, renewable_capacity_per_capita = Some 3,
       energy_intensity = None\<rparr>]"
  by (simp add: example_csv_def coerce_row_def numeric_value_def parse_digits_examples)

text \<open>
  On the example table the years are 2019, 2020, 2020 and missing: the snapshot is the
  two rows of 2020.
\<close>

theorem latest_snapshot_exact_witness:
  "\<exists>d l y s full snap.
     load_data parse_digits example_csv empty_store = Inr ((d, l, y), s) \<and>
     objs s d = Some (Numeric full) \<and>
     objs s l = Some (With_Sustainability snap) \<and>
     map csv_row.truncate snap = filter (has_maximum_year full) full \<and>
     map Entity full = [''A'', ''B'', ''C'', ''D''] \<and>
     map Year full = [Some 2019, Some 2020, Some 2020, None] \<and>
     map Entity snap = [''B'', ''C'']"
  using latest_snapshot_exact[of parse_digits example_csv]
  by (simp add: load_data_eq example_coerced latest_rows_def latest_year_def
      add_sustainability_fields)

text \<open>
  On the example table \<^verbatim>\<open>forty\<close> and \<^verbatim>\<open>n/a\<close> become missing, while the text
  \<^verbatim>\<open>4000\<close> becomes the number.
\<close>

theorem coerced_text_is_missing_witness:
  "\<exists>d l y s full.
     load_data parse_digits example_csv empty_store = Inr ((d, l, y), s) \<and>
     objs s d = Some (Numeric full) \<and>
     parse_digits ''forty'' = None \<and> (1::nat) < length example_csv \<and>
     renewable_share (example_csv ! 1) = Str ''forty'' \<and>
     renewable_share (full ! 1) = None \<and>
     gdp_per_capita (example_csv ! 0) = Str ''n/a'' \<and> gdp_per_capita (full ! 0) = None \<and>
     gdp_per_capita (example_csv ! 1) = Str ''4000'' \<and> gdp_per_capita (full ! 1) = Some 4000"
  using coerced_text_is_missing[of parse_digits example_csv]
  by (simp add: load_data_eq example_coerced parse_digits_examples) (simp add: example_csv_def)

text \<open>
  On the example table the two rows of 2020 score 193 and -190.
\<close>

theorem sustainability_score_formula_witness:
  "\<exists>d l y s snap.
     load_data parse_digits example_csv empty_store = Inr ((d, l, y), s) \<and>
     objs s l = Some (With_Sustainability snap) \<and>
     map Sustainability_Score snap = [193, - 190] \<and>
     (\<forall>r \<in> set snap.
         Sustainability_Score r =
           fillna 0 (renewable_share r) + fillna 0 (access_to_electricity r)
           + (100 - fillna 0 (energy_intensity r) / 10))"
  using sustainability_score_formula[of parse_digits example_csv]
  by (simp add: load_data_eq example_coerced latest_rows_def latest_year_def
      add_sustainability_fields sustainability_score_def)

subsection \<open>Scorer\<close>

lemma eps_pos: "0 < eps" "10 * eps < 1"
  by (simp_all add: eps_def)

lemma handle_zeros_pos: "0 < handle_zeros_in_scale r"
  using eps_pos by (auto simp: handle_zeros_in_scale_def)

lemma minmax_column_eq:
  "col \<noteq> [] \<Longrightarrow> minmax_column col = Inr (map (\<lambda>y. Some (normalized col y)) col)"
proof (cases col)
  case Nil
  assume "col \<noteq> []" with Nil show ?thesis by simp
next
  case (Cons x xs)
  define h where "h = handle_zeros_in_scale (Max (set col) - Min (set col))"
  have h: "h \<noteq> 0" using handle_zeros_pos[of "Max (set col) - Min (set col)"] by (simp add: h_def)
  have mm: "fold min xs x = Min (set col)" "fold max xs x = Max (set col)"
    using Min.set_eq_fold[of x xs] Max.set_eq_fold[of x xs] by (simp_all add: Cons)
  have fit: "minmax_fit col = Inr (Some (1 / h), Some (0 - Min (set col) * (1 / h)))"
    using h by (simp add: Cons Let_def fdiv_def mm[unfolded Cons] h_def[unfolded Cons])
  have "y * (1 / h) + (0 - Min (set col) * (1 / h)) = normalized col y" for y
    by (simp add: normalized_def h_def[symmetric] diff_divide_distrib)
  then show ?thesis
    by (simp add: minmax_column_def fit minmax_transform_def del: minmax_fit.simps)
qed

lemma minmax_column_Nil: "minmax_column [] = Inl ValueError"
  by (simp add: minmax_column_def)


lemma normalized_constant:
  assumes "\<forall>x \<in> set col. x = v" "y \<in> set col"
  shows "normalized col y = 0"
proof -
  have "y = v" using assms by blast
  moreover have "x = v" if "x \<in> set col" for x using assms(1) that by blast
  ultimately have "set col = {y}" using assms(2) by blast
  then show ?thesis by (simp add: normalized_def)
qed



lemma investment_score_map:
  "investment_score (map f1 rows) (map f2 rows) (map f3 rows) (map f4 rows)
   = map (\<lambda>r. weighted (f1 r) (f2 r) (f3 r) (f4 r)) rows"
  by (induction rows) simp_all

lemma set_investment_score_map:
  "set_investment_score rows (map f rows)
   = map (\<lambda>r. sust_row.extend r (inv_row.fields (f r))) rows"
  by (induction rows) simp_all

lemma weighted_Some:
  "weighted (Some a) (Some r) (Some g) (Some c)
   = Some (3 / 10 * a + 4 / 10 * r + 2 / 10 * g + 1 / 10 * c)"
  by (simp add: weighted_def)

lemma fit_transform_factors:
  assumes "rows \<noteq> []"
  shows "fit_transform (investment_factors rows) =
     Inr [map (\<lambda>r. Some (normalized (investment_factors rows ! 0) (fillna 0 (access_to_electricity r)))) rows,
          map (\<lambda>r. Some (normalized (investment_factors rows ! 1) (fillna 0 (renewable_share r)))) rows,
          map (\<lambda>r. Some (normalized (investment_factors rows ! 2) (fillna 0 (gdp_per_capita r)))) rows,
          map (\<lambda>r. Some (normalized (investment_factors rows ! 3) (fillna 0 (renewable_capacity_per_capita r)))) rows]"
  using assms
  by (simp add: fit_transform_def investment_factors_def minmax_column_eq comp_def)

lemma scorer_eq:
  assumes "rows \<noteq> []"
  shows "scorer rows =
     Inr (map (\<lambda>r. sust_row.extend r (inv_row.fields (Some (spec_investment_score rows r)))) rows)"
  unfolding scorer_def fit_transform_factors[OF assms]
  by (simp add: investment_score_map weighted_Some set_investment_score_map
      spec_investment_score_def)

lemma scorer_Nil: "scorer [] = Inl ValueError"
  by (simp add: scorer_def fit_transform_def investment_factors_def minmax_column_Nil)


lemma factor_membership:
  assumes "r \<in> set rows"
  shows "fillna 0 (access_to_electricity r) \<in> set (investment_factors rows ! 0)"
    "fillna 0 (renewable_share r) \<in> set (investment_factors rows ! 1)"
    "fillna 0 (gdp_per_capita r) \<in> set (investment_factors rows ! 2)"
    "fillna 0 (renewable_capacity_per_capita r) \<in> set (investment_factors rows ! 3)"
  using assms by (auto simp: investment_factors_def eval_nat_numeral)



lemma example_row_fields:
  "Entity (example_row e a r g c) = e"
  "access_to_electricity (example_row e a r g c) = Some a"
  "renewable_share (example_row e a r g c) = Some r"
  "gdp_per_capita (example_row e a r g c) = Some g"
  "renewable_capacity_per_capita (example_row e a r g c) = Some c"
  by (simp_all add: example_row_def add_sustainability_fields)



text \<open>
  C3. If every row of a non-empty snapshot has the same value (missing counted as 0) in
  one of the four scored fields, the scaler returns and that field's scaled column is 0
  in every row: a number, with no division by zero.
\<close>

theorem constant_field_normalizes_to_zero:
  assumes "rows \<noteq> []" and "j < 4"
    and "\<forall>x \<in> set (investment_factors rows ! j). x = v"
  shows "\<exists>scaled. fit_transform (investment_factors rows) = Inr scaled \<and>
           length scaled = 4 \<and> scaled ! j = replicate (length rows) (Some 0)"
proof -
  have z: "normalized (investment_factors rows ! j) y = 0"
    if "y \<in> set (investment_factors rows ! j)" for y
    using normalized_constant[OF assms(3) that] .
  from assms(2) consider "j = 0" | "j = 1" | "j = 2" | "j = 3" by linarith
  then have "[map (\<lambda>r. Some (normalized (investment_factors rows ! 0) (fillna 0 (access_to_electricity r)))) rows,
          map (\<lambda>r. Some (normalized (investment_factors rows ! 1) (fillna 0 (renewable_share r)))) rows,
          map (\<lambda>r. Some (normalized (investment_factors rows ! 2) (fillna 0 (gdp_per_capita r)))) rows,
          map (\<lambda>r. Some (normalized (investment_factors rows ! 3) (fillna 0 (renewable_capacity_per_capita r)))) rows] ! j
        = replicate (length rows) (Some 0)"
  proof cases
    case 1
    then show ?thesis using z factor_membership(1)[of _ rows]
      by (simp add: map_replicate_const[symmetric] del: map_replicate_const replicate_eq_replicate cong: map_cong)
  next
    case 2
    then show ?thesis using z factor_membership(2)[of _ rows]
      by (simp add: map_replicate_const[symmetric] cong: map_cong)
  next
    case 3
    then show ?thesis using z factor_membership(3)[of _ rows]
      by (simp add: map_replicate_const[symmetric] eval_nat_numeral cong: map_cong)
  next
    case 4
    then show ?thesis using z factor_membership(4)[of _ rows]
      by (simp add: map_replicate_const[symmetric] eval_nat_numeral cong: map_cong)
  qed
  then show ?thesis by (simp add: fit_transform_factors[OF assms(1)])
qed




text \<open>
  In the example with equal capacities the fourth scaled column is 0 in both rows.
\<close>

theorem constant_field_normalizes_to_zero_witness:
  "constant_capacity_example \<noteq> [] \<and> (3::nat) < 4 \<and>
   investment_factors constant_capacity_example ! 3 = [10, 10] \<and>
   (\<exists>scaled. fit_transform (investment_factors constant_capacity_example) = Inr scaled \<and>
      length scaled = 4 \<and> scaled ! 3 = [Some 0, Some 0])"
proof -
  have a: "constant_capacity_example \<noteq> []" by (simp add: constant_capacity_example_def)
  have b: "(3::nat) < 4" by simp
  have c: "\<forall>x \<in> set (investment_factors constant_capacity_example ! 3). x = 10"
    by (simp add: constant_capacity_example_def investment_factors_def example_row_fields
        eval_nat_numeral)
  have d: "investment_factors constant_capacity_example ! 3 = [10, 10]"
    by (simp add: constant_capacity_example_def investment_factors_def example_row_fields
        eval_nat_numeral)
  have "length constant_capacity_example = 2" by (simp add: constant_capacity_example_def)
  then show ?thesis
    using a b d constant_field_normalizes_to_zero[OF a b c] by (simp add: eval_nat_numeral)
qed



subsection \<open>Selector\<close>

lemma take_idx_Inr:
  "\<forall>j \<in> set js. j < length xs \<Longrightarrow> take_idx xs js = Inr (map (\<lambda>j. xs ! j) js)"
  by (simp add: take_idx_def)

lemma mset_map_nth:
  assumes "mset p = mset [0..<length xs]"
  shows "mset (map (\<lambda>j. xs ! j) p) = mset xs"
proof -
  have "mset (map (\<lambda>j. xs ! j) p) = image_mset (\<lambda>j. xs ! j) (mset p)" by simp
  also have "\<dots> = mset (map (\<lambda>j. xs ! j) [0..<length xs])" by (simp add: assms)
  also have "\<dots> = mset xs" by (simp add: map_nth)
  finally show ?thesis .
qed

lemma perm_in_range:
  assumes "mset p = mset [0..<n]"
  shows "\<forall>j \<in> set p. j < n"
proof -
  have "set p = set [0..<n]" using assms by (rule mset_eq_setD)
  then show ?thesis by simp
qed

lemma zip_upt_present:
  assumes "\<forall>x \<in> set items. x \<noteq> None"
  shows "filter (\<lambda>p. snd p \<noteq> None) (zip [0..<length items] items) = zip [0..<length items] items"
    "filter (\<lambda>p. snd p = None) (zip [0..<length items] items) = []"
proof -
  have "snd p \<noteq> None" if "p \<in> set (zip [0..<length items] items)" for p
    using assms set_zip_rightD[of "fst p" "snd p" "[0..<length items]" items] that by simp
  then show "filter (\<lambda>p. snd p \<noteq> None) (zip [0..<length items] items) = zip [0..<length items] items"
    "filter (\<lambda>p. snd p = None) (zip [0..<length items] items) = []"
    by (simp_all add: filter_id_conv filter_empty_conv)
qed

lemma nargsort_present:
  assumes "\<forall>x \<in> set items. x \<noteq> None"
  shows "nargsort argsort False items =
     (case take_idx (rev [0..<length items]) (argsort (rev (map the items))) of
        Inl e \<Rightarrow> Inl e | Inr indexer \<Rightarrow> Inr (rev indexer))"
proof -
  have a: "map fst (zip [0..<length items] items) = [0..<length items]" by simp
  have "map (the \<circ> snd) (zip [0..<length items] items) = map the (map snd (zip [0..<length items] items))"
    by (simp only: map_map)
  then have b: "map (\<lambda>p. the (snd p)) (zip [0..<length items] items) = map the items"
    by (simp add: comp_def)
  show ?thesis
    unfolding nargsort_def Let_def zip_upt_present[OF assms] a b by (simp split: sum.splits)
qed

lemma sort_values_desc:
  assumes perm: "mset (argsort (rev (map (\<lambda>r. the (by r)) rows))) = mset [0..<length rows]"
    and present: "\<forall>r \<in> set rows. by r \<noteq> None"
  shows "\<exists>out. sort_values argsort by False rows = Inr out \<and> mset out = mset rows \<and>
           map (\<lambda>r. the (by r)) out
             = rev (map (\<lambda>k. rev (map (\<lambda>r. the (by r)) rows) ! k)
                 (argsort (rev (map (\<lambda>r. the (by r)) rows))))"
proof -
  define n where "n = length rows"
  define vals where "vals = map (\<lambda>r. the (by r)) rows"
  define p where "p = argsort (rev vals)"
  define indexer where "indexer = rev (map (\<lambda>k. rev [0..<n] ! k) p)"
  have pm: "mset p = mset [0..<n]" using perm by (simp add: p_def vals_def n_def)
  have pr: "\<forall>k \<in> set p. k < n" using perm_in_range[OF pm] .
  have items: "\<forall>x \<in> set (map by rows). x \<noteq> None" using present by simp
  have t1: "take_idx (rev [0..<n]) p = Inr (map (\<lambda>k. rev [0..<n] ! k) p)"
    using pr by (intro take_idx_Inr) simp
  have na: "nargsort argsort False (map by rows) = Inr indexer"
    unfolding nargsort_present[OF items]
    using t1 by (simp add: indexer_def p_def vals_def n_def comp_def)
  have im: "mset indexer = mset [0..<n]"
    using mset_map_nth[of p "rev [0..<n]"] pm by (simp add: indexer_def)
  have ir: "\<forall>i \<in> set indexer. i < length rows"
    using perm_in_range[OF im] by (simp add: n_def)
  have sv: "sort_values argsort by False rows = Inr (map (\<lambda>i. rows ! i) indexer)"
    by (simp add: sort_values_def na take_idx_Inr[OF ir])
  have ms: "mset (map (\<lambda>i. rows ! i) indexer) = mset rows"
    using im by (intro mset_map_nth) (simp add: n_def)
  have "the (by (rows ! (rev [0..<n] ! k))) = rev vals ! k" if "k \<in> set p" for k
  proof -
    have k: "k < n" using pr that by simp
    then have "rev [0..<n] ! k = n - Suc k" by (simp add: rev_nth)
    moreover have "rev vals ! k = vals ! (n - Suc k)" using k by (simp add: rev_nth vals_def n_def)
    moreover have "n - Suc k < length rows" using k by (simp add: n_def)
    ultimately show ?thesis by (simp add: vals_def)
  qed
  then have "map (\<lambda>r. the (by r)) (map (\<lambda>i. rows ! i) indexer) = rev (map (\<lambda>k. rev vals ! k) p)"
    by (simp add: indexer_def rev_map comp_def)
  then show ?thesis using sv ms by (simp add: vals_def p_def)
qed

lemma promising_present: "promising_mask r \<Longrightarrow> Investment_Score r \<noteq> None"
  by (cases "Investment_Score r") (simp_all add: promising_mask_def)

lemma gt_iff: "gt x t \<longleftrightarrow> (\<exists>y. x = Some y \<and> t < y)"
  by (cases x) simp_all

text \<open>
  C1. Whenever \<^verbatim>\<open>argsort\<close> returns every position once, the selector returns, and its
  rows are exactly the rows of the snapshot that pass the mask (with multiplicity). Every
  returned row has a score above 0.7, a GDP per capita above 3000 and a renewable share
  above 20, all three present; a row failing any one of the three comparisons, a missing
  value included, is not returned.
\<close>

theorem selector_thresholds:
  assumes "permutes argsort"
  shows "\<exists>out. promising_countries argsort snap = Inr out \<and>
     mset out = mset (filter promising_mask snap) \<and>
     (\<forall>r \<in> set out. r \<in> set snap \<and>
        (\<exists>s g p. Investment_Score r = Some s \<and> 7 / 10 < s \<and>
                 gdp_per_capita r = Some g \<and> 3000 < g \<and>
                 renewable_share r = Some p \<and> 20 < p)) \<and>
     (\<forall>r \<in> set snap.
        (\<not> gt (Investment_Score r) (7 / 10) \<or> \<not> gt (gdp_per_capita r) 3000
         \<or> \<not> gt (renewable_share r) 20) \<longrightarrow> r \<notin> set out)"
proof -
  let ?rows = "filter promising_mask snap"
  have perm: "mset (argsort (rev (map (\<lambda>r. the (Investment_Score r)) ?rows))) = mset [0..<length ?rows]"
    using assms by (simp add: permutes_def)
  have present: "\<forall>r \<in> set ?rows. Investment_Score r \<noteq> None"
    by (simp add: promising_present)
  from sort_values_desc[of argsort Investment_Score ?rows, OF perm present] obtain out where
    out: "promising_countries argsort snap = Inr out" "mset out = mset ?rows"
    by (auto simp: promising_countries_def)
  have so: "set out = set ?rows" using out(2) by (rule mset_eq_setD)
  have pm: "promising_mask r \<longleftrightarrow>
      (\<exists>s g p. Investment_Score r = Some s \<and> 7 / 10 < s \<and>
                 gdp_per_capita r = Some g \<and> 3000 < g \<and>
                 renewable_share r = Some p \<and> 20 < p)" for r :: "real option inv_row"
    by (cases "Investment_Score r"; cases "gdp_per_capita r"; cases "renewable_share r")
      (simp_all add: promising_mask_def)
  have a: "\<forall>r \<in> set out. r \<in> set snap \<and>
        (\<exists>s g p. Investment_Score r = Some s \<and> 7 / 10 < s \<and>
                 gdp_per_capita r = Some g \<and> 3000 < g \<and>
                 renewable_share r = Some p \<and> 20 < p)"
    using so pm by simp
  have b: "\<forall>r \<in> set snap.
        (\<not> gt (Investment_Score r) (7 / 10) \<or> \<not> gt (gdp_per_capita r) 3000
         \<or> \<not> gt (renewable_share r) 20) \<longrightarrow> r \<notin> set out"
    using so by (simp add: promising_mask_def)
  show ?thesis using out a b by (intro exI[of _ out] conjI)
qed



lemma scored_row_fields:
  "Entity (scored_row e s g p) = e" "Investment_Score (scored_row e s g p) = s"
  "gdp_per_capita (scored_row e s g p) = g" "renewable_share (scored_row e s g p) = p"
  by (simp_all add: scored_row_def)

lemma sort_values_present:
  assumes "\<forall>r \<in> set rows. by r \<noteq> None"
  shows "sort_values argsort by False rows =
     (case take_idx (rev [0..<length rows]) (argsort (rev (map (\<lambda>r. the (by r)) rows))) of
        Inl e \<Rightarrow> Inl e | Inr indexer \<Rightarrow> take_idx rows (rev indexer))"
proof -
  have "\<forall>x \<in> set (map by rows). x \<noteq> None" using assms by simp
  from nargsort_present[OF this] show ?thesis
    by (simp add: sort_values_def comp_def split: sum.splits)
qed

lemma selector_example_filter:
  "filter promising_mask selector_example
   = [scored_row ''A'' (Some 0.8) (Some 5000) (Some 50),
      scored_row ''E'' (Some 0.9) (Some 4000) (Some 30)]"
  by (simp add: selector_example_def promising_mask_def scored_row_fields)

















subsection \<open>The script and its store\<close>

lemma load_data_store:
  "load_data parse csv empty_store =
     Inr ((0, 2, latest_year (loaded parse csv)),
          \<lparr>objs = (\<lambda>a. None)(0 \<mapsto> Numeric (loaded parse csv),
                   1 \<mapsto> Numeric (latest_rows (loaded parse csv)),
                   2 \<mapsto> With_Sustainability (snapshot parse csv)),
           fresh = 3\<rparr>)"
  by (simp add: load_data_eq loaded_def snapshot_def)

lemma scorer_fit_transform:
  "fit_transform (investment_factors rows) = Inl e \<Longrightarrow> scorer rows = Inl e"
  by (simp add: scorer_def)

lemma add_investment_score_store:
  assumes "objs s l = Some (With_Sustainability rows)"
  shows "add_investment_score l s =
     (case scorer rows of
        Inl e \<Rightarrow> Inl e
      | Inr scored \<Rightarrow>
          Inr (s\<lparr>objs := (objs s)(fresh s \<mapsto> Columns (map (map Some) (investment_factors rows)),
                      Suc (fresh s) \<mapsto> Columns (projr (fit_transform (investment_factors rows))),
                      l \<mapsto> With_Investment scored),
                 fresh := Suc (Suc (fresh s))\<rparr>))"
  using assms
  by (cases "fit_transform (investment_factors rows)"; cases "scorer rows")
    (simp_all add: add_investment_score_def new_object_def set_object_def bind_def scorer_def)

lemma select_promising_store:
  assumes "objs s l = Some (With_Investment rows)"
  shows "select_promising argsort l s =
     (case promising_countries argsort rows of
        Inl e \<Rightarrow> Inl e
      | Inr out \<Rightarrow>
          Inr (Suc (fresh s),
               s\<lparr>objs := (objs s)(fresh s \<mapsto> With_Investment (filter promising_mask rows),
                      Suc (fresh s) \<mapsto> With_Investment out),
                 fresh := Suc (Suc (fresh s))\<rparr>))"
  using assms
  by (cases "promising_countries argsort rows")
    (simp_all add: select_promising_def new_object_def bind_def)

lemma script_cases:
  "script parse argsort csv =
     (case scorer (snapshot parse csv) of
        Inl e \<Rightarrow> Inl e
      | Inr scored \<Rightarrow>
          (case promising_countries argsort scored of
             Inl e \<Rightarrow> Inl e
           | Inr out \<Rightarrow>
               Inr (\<lparr>df_ref = 0, latest_df_ref = 2,
                     latest_year_val = latest_year (loaded parse csv), promising_ref = 6\<rparr>,
                    \<lparr>objs = (\<lambda>a. None)(0 \<mapsto> Numeric (loaded parse csv),
                       1 \<mapsto> Numeric (latest_rows (loaded parse csv)),
                       2 \<mapsto> With_Investment scored,
                       3 \<mapsto> Columns (map (map Some) (investment_factors (snapshot parse csv))),
                       4 \<mapsto> Columns (projr (fit_transform (investment_factors (snapshot parse csv)))),
                       5 \<mapsto> With_Investment (filter promising_mask scored),
                       6 \<mapsto> With_Investment out),
                     fresh = 7\<rparr>)))"
proof -
  let ?s1 = "\<lparr>objs = (\<lambda>a. None)(0 \<mapsto> Numeric (loaded parse csv),
                   1 \<mapsto> Numeric (latest_rows (loaded parse csv)),
                   2 \<mapsto> With_Sustainability (snapshot parse csv)),
           fresh = 3\<rparr>"
  have a: "objs ?s1 2 = Some (With_Sustainability (snapshot parse csv))" by simp
  show ?thesis
  proof (cases "scorer (snapshot parse csv)")
    case (Inl e)
    have s2: "add_investment_score 2 ?s1 = Inl e"
      unfolding add_investment_score_store[OF a] Inl by simp
    show ?thesis
      unfolding script_def load_data_store bind_def prod.case sum.case s2 Inl by (rule refl)
  next
    case (Inr scored)
    let ?s2 = "?s1\<lparr>objs := (objs ?s1)(fresh ?s1 \<mapsto> Columns (map (map Some) (investment_factors (snapshot parse csv))),
                      Suc (fresh ?s1) \<mapsto> Columns (projr (fit_transform (investment_factors (snapshot parse csv)))),
                      2 \<mapsto> With_Investment scored),
                 fresh := Suc (Suc (fresh ?s1))\<rparr>"
    have b: "objs ?s2 2 = Some (With_Investment scored)" by simp
    have s2: "add_investment_score 2 ?s1 = Inr ?s2"
      unfolding add_investment_score_store[OF a] Inr by simp
    show ?thesis
    proof (cases "promising_countries argsort scored")
      case (Inl e)
      have s3: "select_promising argsort 2 ?s2 = Inl e"
        unfolding select_promising_store[OF b] Inl by simp
      show ?thesis
        unfolding script_def load_data_store bind_def prod.case sum.case s2 s3 Inr Inl
        by (rule refl)
    next
      case sorted: (Inr out)
      have s3: "select_promising argsort 2 ?s2 =
          Inr (Suc (fresh ?s2),
               ?s2\<lparr>objs := (objs ?s2)(fresh ?s2 \<mapsto> With_Investment (filter promising_mask scored),
                      Suc (fresh ?s2) \<mapsto> With_Investment out),
                 fresh := Suc (Suc (fresh ?s2))\<rparr>)"
        unfolding select_promising_store[OF b] sorted by simp
      show ?thesis
        unfolding script_def load_data_store bind_def prod.case sum.case s2 s3 Inr sorted
        by (simp add: eval_nat_numeral fun_upd_twist)
    qed
  qed
qed

lemma promising_countries_returns:
  assumes "permutes argsort"
  shows "\<exists>out. promising_countries argsort snap = Inr out"
proof -
  let ?rows = "filter promising_mask snap"
  have perm: "mset (argsort (rev (map (\<lambda>r. the (Investment_Score r)) ?rows))) = mset [0..<length ?rows]"
    using assms by (simp add: permutes_def)
  have present: "\<forall>r \<in> set ?rows. Investment_Score r \<noteq> None"
    by (simp add: promising_present)
  from sort_values_desc[of argsort Investment_Score ?rows, OF perm present] show ?thesis
    by (auto simp: promising_countries_def)
qed

text \<open>
  C8. \<^verbatim>\<open>load_data\<close> returns two different references. The object behind \<^verbatim>\<open>df\<close> holds
  the table as coerced by the loader, and it still holds exactly that after the
  Investment Score column is assigned and after the whole script has run, while the
  object behind \<^verbatim>\<open>latest_df\<close> has gained the score columns. The script does run to
  its end whenever the latest year has a row and \<^verbatim>\<open>argsort\<close> returns every position
  once.
\<close>

theorem full_dataset_unchanged:
  "\<exists>d l y s1 full.
     load_data parse csv empty_store = Inr ((d, l, y), s1) \<and>
     coerce_numeric_cols parse csv = Inr full \<and>
     objs s1 d = Some (Numeric full) \<and> d \<noteq> l \<and>
     (\<forall>s2. add_investment_score l s1 = Inr s2 \<longrightarrow>
        objs s2 d = Some (Numeric full) \<and>
        (\<exists>scored. objs s2 l = Some (With_Investment scored))) \<and>
     (\<forall>v s. script parse argsort csv = Inr (v, s) \<longrightarrow>
        df_ref v = d \<and> latest_df_ref v = l \<and> objs s d = Some (Numeric full) \<and>
        (\<exists>scored. objs s l = Some (With_Investment scored))) \<and>
     (latest_rows full \<noteq> [] \<and> permutes argsort \<longrightarrow>
        (\<exists>v s. script parse argsort csv = Inr (v, s)))"
proof -
  let ?full = "loaded parse csv"
  let ?s1 = "\<lparr>objs = (\<lambda>a. None)(0 \<mapsto> Numeric ?full,
                   1 \<mapsto> Numeric (latest_rows ?full),
                   2 \<mapsto> With_Sustainability (snapshot parse csv)),
           fresh = 3\<rparr>"
  have a: "objs ?s1 2 = Some (With_Sustainability (snapshot parse csv))" by simp
  have c1: "load_data parse csv empty_store = Inr ((0, 2, latest_year ?full), ?s1)"
    by (rule load_data_store)
  have c2: "coerce_numeric_cols parse csv = Inr ?full"
    by (simp add: coerce_numeric_cols_eq loaded_def)
  have c3: "objs ?s1 0 = Some (Numeric ?full)" by simp
  have c4: "\<forall>s2. add_investment_score 2 ?s1 = Inr s2 \<longrightarrow>
        objs s2 0 = Some (Numeric ?full) \<and>
        (\<exists>scored. objs s2 2 = Some (With_Investment scored))"
    unfolding add_investment_score_store[OF a] by (auto split: sum.splits)
  have c5: "\<forall>v s. script parse argsort csv = Inr (v, s) \<longrightarrow>
        df_ref v = 0 \<and> latest_df_ref v = 2 \<and> objs s 0 = Some (Numeric ?full) \<and>
        (\<exists>scored. objs s 2 = Some (With_Investment scored))"
    unfolding script_cases by (auto split: sum.splits)
  have c6: "latest_rows ?full \<noteq> [] \<and> permutes argsort \<longrightarrow>
        (\<exists>v s. script parse argsort csv = Inr (v, s))"
  proof
    assume h: "latest_rows ?full \<noteq> [] \<and> permutes argsort"
    then have "snapshot parse csv \<noteq> []" by (simp add: snapshot_def)
    from scorer_eq[OF this] obtain scored where sc: "scorer (snapshot parse csv) = Inr scored"
      by blast
    from promising_countries_returns[of argsort scored] h obtain out where
      "promising_countries argsort scored = Inr out" by blast
    then show "\<exists>v s. script parse argsort csv = Inr (v, s)"
      unfolding script_cases sc by simp
  qed
  have c7: "(0::nat) \<noteq> 2" by simp
  show ?thesis
    using c1 c2 c3 c4 c5 c6 c7 by blast
qed

subsection \<open>The default sort is a permutation\<close>

text \<open>
  The default sort only moves positions around: whatever the values, its result holds
  every position of the input once.
\<close>

lemma INTP_SWAP_perm:
  "i < length t \<Longrightarrow> j < length t \<Longrightarrow> mset (INTP_SWAP t i j) = mset t"
  unfolding INTP_SWAP_def by (rule mset_swap)

lemma INTP_SWAP_length: "length (INTP_SWAP t i j) = length t"
  by (simp add: INTP_SWAP_def)

lemma hoare_perm:
  "pJ < length t \<Longrightarrow> pI < pr \<Longrightarrow> pJ \<le> pr \<Longrightarrow>
   mset (fst (hoare v t vp pl pr pI pJ)) = mset t \<and>
   length (fst (hoare v t vp pl pr pI pJ)) = length t"
proof (induction v t vp pl pr pI pJ rule: hoare.induct)
  case (1 v t vp pl pr pI pJ)
  let ?i = "scan_up v t vp pr pI" and ?j = "scan_down v t vp pl pJ"
  have a: "pI < ?i" and b: "?j \<le> pJ"
    using scan_up_bounds[of pI v t vp pr] scan_down_le[of v t vp pl pJ] by auto
  show ?case
  proof (cases "?j \<le> ?i")
    case True
    then show ?thesis using hoare.simps[of v t vp pl pr pI pJ] by (simp add: Let_def)
  next
    case False
    then have r: "?i < length t" "?j < length t" using b 1(2) by auto
    have "?i \<le> pr" using scan_up_bounds[of pI v t vp pr] 1(3) by auto
    then have ipr: "?i < pr" "?j \<le> pr" using False b 1(4) by auto
    have "mset (fst (hoare v (INTP_SWAP t ?i ?j) vp pl pr ?i ?j)) = mset (INTP_SWAP t ?i ?j) \<and>
      length (fst (hoare v (INTP_SWAP t ?i ?j) vp pl pr ?i ?j)) = length (INTP_SWAP t ?i ?j)"
      using 1(1)[OF refl refl False] r ipr by (simp add: INTP_SWAP_length)
    then show ?thesis
      using False r hoare.simps[of v t vp pl pr pI pJ]
      by (simp add: Let_def INTP_SWAP_perm INTP_SWAP_length)
  qed
qed

lemma qpartition_perm:
  assumes "pl < pr" "pr < length t"
  shows "mset (fst (qpartition v t pl pr)) = mset t \<and> length (fst (qpartition v t pl pr)) = length t"
proof -
  define pm where "pm = pl + (pr - pl) div 2"
  define t1 where "t1 = (if v ! (t ! pm) < v ! (t ! pl) then INTP_SWAP t pm pl else t)"
  define t2 where "t2 = (if v ! (t1 ! pr) < v ! (t1 ! pm) then INTP_SWAP t1 pr pm else t1)"
  define t3 where "t3 = (if v ! (t2 ! pm) < v ! (t2 ! pl) then INTP_SWAP t2 pm pl else t2)"
  define t4 where "t4 = INTP_SWAP t3 pm (pr - 1)"
  define h where "h = hoare v t4 (v ! (t3 ! pm)) pl pr pl (pr - 1)"
  have pm: "pm < length t" "pl < length t" "pr - 1 < length t"
    using assms by (auto simp: pm_def)
  have l1: "length t1 = length t" "mset t1 = mset t"
    using pm by (auto simp: t1_def INTP_SWAP_length INTP_SWAP_perm)
  have l2: "length t2 = length t" "mset t2 = mset t"
    using pm assms l1 by (auto simp: t2_def INTP_SWAP_length INTP_SWAP_perm)
  have l3: "length t3 = length t" "mset t3 = mset t"
    using pm l2 by (auto simp: t3_def INTP_SWAP_length INTP_SWAP_perm)
  have l4: "length t4 = length t" "mset t4 = mset t"
    using pm l3 by (auto simp: t4_def INTP_SWAP_length INTP_SWAP_perm)
  have l5: "mset (fst h) = mset t" "length (fst h) = length t"
    using hoare_perm[of "pr - 1" t4 pl pr v "v ! (t3 ! pm)" pl] pm l4 assms by (auto simp: h_def)
  have b: "snd h \<le> pr"
    using hoare_bounds[of pl pr "pr - 1" v t4 "v ! (t3 ! pm)" pl] assms by (simp add: h_def)
  have q: "qpartition v t pl pr = (INTP_SWAP (fst h) (snd h) (pr - 1), snd h)"
    unfolding qpartition_def Let_def pm_def[symmetric] t1_def[symmetric] t2_def[symmetric]
      t3_def[symmetric] t4_def[symmetric] h_def[symmetric]
    by (simp add: case_prod_unfold)
  show ?thesis unfolding q using l5 b pm assms by (simp add: INTP_SWAP_length INTP_SWAP_perm)
qed

lemma shift_swap:
  assumes "p < length t" "q < length t"
  shows "mset (t[p := t ! q, q := x]) = mset (t[p := x])"
proof (cases "p = q")
  case True
  then show ?thesis by simp
next
  case False
  let ?u = "t[p := x]"
  have "?u[p := ?u ! q, q := ?u ! p] = t[p := t ! q, q := x]"
    using False assms by simp
  moreover have "mset (?u[p := ?u ! q, q := ?u ! p]) = mset ?u"
    using assms mset_swap[of q ?u p] by simp
  ultimately show ?thesis by simp
qed

lemma ins_shift_perm:
  "pJ < length t \<Longrightarrow>
   mset ((fst (ins_shift v t vp pl pJ))[snd (ins_shift v t vp pl pJ) := x]) = mset (t[pJ := x]) \<and>
   length (fst (ins_shift v t vp pl pJ)) = length t"
proof (induction v t vp pl pJ rule: ins_shift.induct)
  case (1 v t vp pl pJ)
  show ?case
  proof (cases "pl < pJ \<and> vp < v ! (t ! (pJ - 1))")
    case True
    then have e: "ins_shift v t vp pl pJ = ins_shift v (t[pJ := t ! (pJ - 1)]) vp pl (pJ - 1)"
      using ins_shift.simps[of v t vp pl pJ] by simp
    have "mset (t[pJ := t ! (pJ - 1), pJ - 1 := x]) = mset (t[pJ := x])"
      using 1(2) by (intro shift_swap) auto
    then show ?thesis using 1(1)[OF True] 1(2) unfolding e by simp
  next
    case False
    then have "ins_shift v t vp pl pJ = (t, pJ)"
      using ins_shift.simps[of v t vp pl pJ] by auto
    then show ?thesis by simp
  qed
qed

lemma insertion_perm:
  "pr < length t \<Longrightarrow>
   mset (insertion v t pl pr pI) = mset t \<and> length (insertion v t pl pr pI) = length t"
proof (induction v t pl pr pI rule: insertion.induct)
  case (1 v t pl pr pI)
  show ?case
  proof (cases "pI \<le> pr")
    case True
    let ?s = "ins_shift v t (v ! (t ! pI)) pl pI"
    have pI: "pI < length t" using True 1(2) by simp
    have e: "insertion v t pl pr pI = insertion v ((fst ?s)[snd ?s := t ! pI]) pl pr (Suc pI)"
      using True insertion.simps[of v t pl pr pI] by (simp add: Let_def case_prod_unfold)
    have a: "mset ((fst ?s)[snd ?s := t ! pI]) = mset t" "length (fst ?s) = length t"
      using ins_shift_perm[OF pI, of v "v ! (t ! pI)" pl "t ! pI"] by simp_all
    have "mset (insertion v ((fst ?s)[snd ?s := t ! pI]) pl pr (Suc pI)) = mset ((fst ?s)[snd ?s := t ! pI]) \<and>
      length (insertion v ((fst ?s)[snd ?s := t ! pI]) pl pr (Suc pI)) = length ((fst ?s)[snd ?s := t ! pI])"
      using 1(1)[OF True refl refl prod.collapse] a 1(2) by simp
    then show ?thesis unfolding e using a by simp
  next
    case False
    then show ?thesis using insertion.simps[of v t pl pr pI] by simp
  qed
qed

lemma sift_perm:
  "b + n \<le> length t \<Longrightarrow> 0 < i \<Longrightarrow> i \<le> n \<Longrightarrow>
   mset (sift v t b n tmp i j) = mset (t[b + i - 1 := tmp]) \<and>
   length (sift v t b n tmp i j) = length t"
proof (induction v t b n tmp i j rule: sift.induct)
  case (1 v t b n tmp i j)
  define k where "k = (if j < n \<and> v ! (t ! (b + j - 1)) < v ! (t ! (b + j)) then j + 1 else j)"
  show ?case
  proof (cases "0 < j \<and> j \<le> n \<and> v ! tmp < v ! (t ! (b + k - 1))")
    case True
    then have k: "0 < k" "k \<le> n" by (auto simp: k_def)
    have e: "sift v t b n tmp i j = sift v (t[b + i - 1 := t ! (b + k - 1)]) b n tmp k (k + k)"
      using True sift.simps[of v t b n tmp i j] by (simp add: Let_def k_def)
    have r: "b + i - 1 < length t" "b + k - 1 < length t" using 1(2,3,4) k by auto
    have "mset (t[b + i - 1 := t ! (b + k - 1), b + k - 1 := tmp]) = mset (t[b + i - 1 := tmp])"
      using r by (rule shift_swap)
    moreover have "mset (sift v (t[b + i - 1 := t ! (b + k - 1)]) b n tmp k (k + k))
        = mset ((t[b + i - 1 := t ! (b + k - 1)])[b + k - 1 := tmp]) \<and>
      length (sift v (t[b + i - 1 := t ! (b + k - 1)]) b n tmp k (k + k))
        = length (t[b + i - 1 := t ! (b + k - 1)])"
      using 1(1)[of k] True k 1(2) by (simp add: k_def)
    ultimately show ?thesis unfolding e by simp
  next
    case False
    then have "sift v t b n tmp i j = t[b + i - 1 := tmp]"
      using sift.simps[of v t b n tmp i j] by (auto simp: Let_def k_def)
    then show ?thesis by simp
  qed
qed

lemma heapify_perm:
  "b + n \<le> length t \<Longrightarrow> l \<le> n \<Longrightarrow>
   mset (heapify v t b n l) = mset t \<and> length (heapify v t b n l) = length t"
proof (induction l arbitrary: t)
  case 0
  then show ?case by simp
next
  case (Suc l)
  let ?t = "sift v t b n (t ! (b + l)) (Suc l) (2 * Suc l)"
  have "mset ?t = mset (t[b + Suc l - 1 := t ! (b + l)]) \<and> length ?t = length t"
    using Suc.prems by (intro sift_perm) auto
  then have a: "mset ?t = mset t" "length ?t = length t" by simp_all
  show ?case using Suc.IH[of ?t] Suc.prems a by simp
qed

lemma heap_pop_perm:
  "b + n \<le> length t \<Longrightarrow>
   mset (heap_pop v t b n) = mset t \<and> length (heap_pop v t b n) = length t"
proof (induction n arbitrary: t)
  case 0
  then show ?case by simp
next
  case (Suc m)
  show ?case
  proof (cases "0 < m")
    case True
    let ?t' = "t[b + m := t ! b]"
    let ?t = "sift v ?t' b m (t ! (b + m)) 1 2"
    have "mset ?t = mset (?t'[b + 1 - 1 := t ! (b + m)]) \<and> length ?t = length ?t'"
      using Suc.prems True by (intro sift_perm) auto
    moreover have "mset (t[b + m := t ! b, b := t ! (b + m)]) = mset (t[b + m := t ! (b + m)])"
      using Suc.prems by (intro shift_swap) auto
    ultimately have a: "mset ?t = mset t" "length ?t = length t" by simp_all
    show ?thesis using Suc.IH[of ?t] Suc.prems a True by (simp add: Let_def)
  next
    case False
    then show ?thesis by simp
  qed
qed

lemma aheapsort_perm:
  "b + n \<le> length t \<or> n \<le> 1 \<Longrightarrow>
   mset (aheapsort v t b n) = mset t \<and> length (aheapsort v t b n) = length t"
proof (cases "b + n \<le> length t")
  case True
  then show ?thesis
    using heapify_perm[of b n t "n div 2" v]
      heap_pop_perm[of b n "heapify v t b n (n div 2)" v]
    by (simp add: aheapsort_def)
next
  case False
  assume "b + n \<le> length t \<or> n \<le> 1"
  with False have "n = 0 \<or> n = 1" by auto
  then show ?thesis by (auto simp: aheapsort_def)
qed

lemma aquicksort_range_perm:
  "pr < length t \<Longrightarrow>
   mset (aquicksort_range v t pl pr cdepth popped) = mset t \<and>
   length (aquicksort_range v t pl pr cdepth popped) = length t"
proof (induction v t pl pr cdepth popped rule: aquicksort_range.induct)
  case (1 v t pl pr cdepth popped)
  note simps = aquicksort_range.simps[of v t pl pr cdepth popped]
  show ?case
  proof (cases "popped \<and> cdepth < 0")
    case True
    have "pl + (pr - pl + 1) \<le> length t \<or> pr - pl + 1 \<le> 1" using 1(5) by auto
    moreover have "aquicksort_range v t pl pr cdepth popped = aheapsort v t pl (pr - pl + 1)"
      using True by (subst simps) auto
    ultimately show ?thesis using aheapsort_perm[of pl "pr - pl + 1" t v] by simp
  next
    case heap: False
    show ?thesis
    proof (cases "16 < pr - pl")
      case False
      then have "aquicksort_range v t pl pr cdepth popped = insertion v t pl pr (pl + 1)"
        using heap by (subst simps) auto
      then show ?thesis using insertion_perm[OF 1(5), of v pl "pl + 1"] by simp
    next
      case True
      define t' where "t' = fst (qpartition v t pl pr)"
      define y where "y = snd (qpartition v t pl pr)"
      have q: "(t', y) = qpartition v t pl pr" by (simp add: t'_def y_def)
      have lt: "pl < pr" using True by simp
      have p: "mset t' = mset t" "length t' = length t"
        using qpartition_perm[OF lt 1(5)] by (simp_all add: t'_def)
      have y: "pl < y" "y \<le> pr" using partition_bounds[OF lt] by (simp_all add: y_def)
      show ?thesis
      proof (cases "y - pl < pr - y")
        case left: True
        let ?inner = "aquicksort_range v t' pl (y - 1) (cdepth - 1) False"
        have i: "mset ?inner = mset t'" "length ?inner = length t'"
          using 1(1)[OF heap True refl q left] y 1(5) p by simp_all
        have o: "mset (aquicksort_range v ?inner (y + 1) pr (cdepth - 1) True) = mset ?inner"
          "length (aquicksort_range v ?inner (y + 1) pr (cdepth - 1) True) = length ?inner"
          using 1(2)[OF heap True refl q left] i p 1(5) by simp_all
        have "aquicksort_range v t pl pr cdepth popped
            = aquicksort_range v ?inner (y + 1) pr (cdepth - 1) True"
          using heap True left by (subst simps) (auto simp add: case_prod_unfold Let_def t'_def y_def)
        then show ?thesis using o i p by simp
      next
        case right: False
        let ?inner = "aquicksort_range v t' (y + 1) pr (cdepth - 1) False"
        have i: "mset ?inner = mset t'" "length ?inner = length t'"
          using 1(3)[OF heap True refl q right] 1(5) p by simp_all
        have o: "mset (aquicksort_range v ?inner pl (y - 1) (cdepth - 1) True) = mset ?inner"
          "length (aquicksort_range v ?inner pl (y - 1) (cdepth - 1) True) = length ?inner"
          using 1(4)[OF heap True refl q right] i p y 1(5) by simp_all
        have "aquicksort_range v t pl pr cdepth popped
            = aquicksort_range v ?inner pl (y - 1) (cdepth - 1) True"
          using heap True right by (subst simps) (auto simp add: case_prod_unfold Let_def t'_def y_def)
        then show ?thesis using o i p by simp
      qed
    qed
  qed
qed

lemma permutes_aquicksort: "permutes aquicksort"
proof -
  have "mset (aquicksort v) = mset [0..<length v]" for v
  proof (cases "length v = 0")
    case True
    then show ?thesis by (simp add: aquicksort_def)
  next
    case False
    then have "length v - 1 < length [0..<length v]" by simp
    from aquicksort_range_perm[OF this] show ?thesis using False
      by (simp add: aquicksort_def Let_def)
  qed
  then show ?thesis by (simp add: permutes_def)
qed

lemma aquicksort_pair: "aquicksort [9 / 10, 8 / 10] = [1, 0]"
  by code_simp

lemma selector_example_default:
  "promising_countries aquicksort selector_example
   = Inr [scored_row ''E'' (Some 0.9) (Some 4000) (Some 30),
          scored_row ''A'' (Some 0.8) (Some 5000) (Some 50)]"
proof -
  let ?rows = "[scored_row ''A'' (Some 0.8) (Some 5000) (Some 50),
      scored_row ''E'' (Some 0.9) (Some 4000) (Some 30)]"
  have "\<forall>r \<in> set ?rows. Investment_Score r \<noteq> None"
    by (simp add: scored_row_fields del: not_None_eq)
  from sort_values_present[of ?rows Investment_Score aquicksort, OF this] show ?thesis
    using aquicksort_pair
    by (simp add: promising_countries_def selector_example_filter scored_row_fields
        take_idx_def)
qed

text \<open>
  The default sort returns every position once. On the example of seven scored rows the
  selector, with the default sort, returns E and A, the two rows that pass the mask.
\<close>

theorem selector_thresholds_witness:
  "permutes aquicksort \<and>
   (\<exists>out. promising_countries aquicksort selector_example = Inr out \<and>
      map Entity out = [''E'', ''A''] \<and>
      map Entity (filter promising_mask selector_example) = [''A'', ''E''])"
  using selector_thresholds[OF permutes_aquicksort, of selector_example]
    permutes_aquicksort
  by (simp add: selector_example_default selector_example_filter scored_row_fields)

text \<open>
  On the example table, with the default sort, the script runs to its end and \<^verbatim>\<open>df\<close>
  is the coerced table.
\<close>

theorem full_dataset_unchanged_witness:
  "\<exists>v s. script parse_digits aquicksort example_csv = Inr (v, s) \<and>
     objs s (df_ref v) = Some (Numeric (map (coerce_row parse_digits) example_csv)) \<and>
     df_ref v \<noteq> latest_df_ref v \<and>
     (\<exists>scored. objs s (latest_df_ref v) = Some (With_Investment scored))"
proof -
  from full_dataset_unchanged[of parse_digits example_csv aquicksort]
  obtain d l y s1 full where
    f: "coerce_numeric_cols parse_digits example_csv = Inr full" "d \<noteq> l"
    and sc: "\<forall>v s. script parse_digits aquicksort example_csv = Inr (v, s) \<longrightarrow>
        df_ref v = d \<and> latest_df_ref v = l \<and> objs s d = Some (Numeric full) \<and>
        (\<exists>scored. objs s l = Some (With_Investment scored))"
    and ex: "latest_rows full \<noteq> [] \<and> permutes aquicksort \<longrightarrow>
        (\<exists>v s. script parse_digits aquicksort example_csv = Inr (v, s))"
    by blast
  have full: "full = map (coerce_row parse_digits) example_csv"
    using f(1) by (simp add: coerce_numeric_cols_eq)
  have "latest_rows full \<noteq> []"
    unfolding full example_coerced by (simp add: latest_rows_def latest_year_def)
  with ex permutes_aquicksort obtain v s where
    "script parse_digits aquicksort example_csv = Inr (v, s)" by blast
  with sc f(2) full show ?thesis by blast
qed

(*THMS_END*)

end
